theory Spec2Isabelle
  imports Main "HOL-Library.Char_ord" "HOL-Library.List_Lexorder"
begin

section \<open>JSON values and Python dicts\<close>

text \<open>
  The values \<^verbatim>\<open>table.py\<close> stores are what Python's \<^verbatim>\<open>json\<close> module produces:
  \<^verbatim>\<open>None\<close>, \<^verbatim>\<open>bool\<close>, \<^verbatim>\<open>int\<close> (unbounded), \<^verbatim>\<open>float\<close>, \<^verbatim>\<open>str\<close>, \<^verbatim>\<open>list\<close> and
  \<^verbatim>\<open>dict\<close>. A \<^verbatim>\<open>dict\<close> is an association list in insertion order (the order
  \<^verbatim>\<open>obj.items()\<close> iterates in) whose keys are distinct. The type \<open>'f\<close> stands for the
  finite floats: nothing in \<^verbatim>\<open>table.py\<close> computes with one, so it is left open.
  Strings are byte strings (the UTF-8 encoding).
\<close>

datatype 'f json =
    JNull
  | JBool bool
  | JInt int
  | JFloat 'f
  | JStr string
  | JArr "'f json list"
  | JObj "(string \<times> 'f json) list"

text \<open>Python's \<^verbatim>\<open>d[k] = v\<close>: an existing key keeps its place, a new key goes last.\<close>

fun dict_set :: "string \<Rightarrow> 'v \<Rightarrow> (string \<times> 'v) list \<Rightarrow> (string \<times> 'v) list" where
  "dict_set k v [] = [(k, v)]"
| "dict_set k v ((k', v') # d) =
     (if k' = k then (k, v) # d else (k', v') # dict_set k v d)"

text \<open>A well-formed value: the keys of every dict in it are distinct.\<close>

fun wf_json :: "'f json \<Rightarrow> bool" where
  "wf_json (JArr xs) = list_all wf_json xs"
| "wf_json (JObj kvs) = (distinct (map fst kvs) \<and> list_all (\<lambda>(k, v). wf_json v) kvs)"
| "wf_json v = True"

text \<open>
  Type-faithful equality of two values: the same constructor with the same content,
  lists element by element in order, dicts key by key whatever the insertion order.
  \<open>JInt 1\<close> and \<open>JFloat x\<close> are never equal.
\<close>

fun json_eq :: "'f json \<Rightarrow> 'f json \<Rightarrow> bool" where
  "json_eq (JArr xs) (JArr ys) = list_all2 json_eq xs ys"
| "json_eq (JObj xs) (JObj ys) =
     (set (map fst xs) = set (map fst ys) \<and>
      list_all (\<lambda>(k, v). list_all (\<lambda>(k', v'). k = k' \<longrightarrow> json_eq v v') ys) xs)"
| "json_eq a b = (a = b)"

section \<open>The table\<close>

text \<open>
  One row of the table \<^verbatim>\<open>create_object_table\<close> creates. The first two columns are
  \<^verbatim>\<open>TEXT NOT NULL\<close> and form the primary key; the other two may hold \<^verbatim>\<open>NULL\<close>.
\<close>

record row =
  canonical_json_sha1 :: string
  property_name :: string
  property_json :: "string option"
  property_json_sha1 :: "string option"

text \<open>
  A table is its rows in rowid order; a connection maps the name of each table
  that exists to its rows.
\<close>

type_synonym table = "row list"
type_synonym conn = "string \<Rightarrow> table option"

datatype error = AttributeError | OperationalError | JSONDecodeError

text \<open>\<^verbatim>\<open>CREATE TABLE IF NOT EXISTS\<close>: an existing table is left as it is.\<close>

definition create_object_table :: "conn \<Rightarrow> string \<Rightarrow> conn" where
  "create_object_table c table_name =
     (case c table_name of None \<Rightarrow> c(table_name \<mapsto> []) | Some t \<Rightarrow> c)"

definition same_key :: "row \<Rightarrow> row \<Rightarrow> bool" where
  "same_key r r' \<longleftrightarrow>
     canonical_json_sha1 r = canonical_json_sha1 r' \<and> property_name r = property_name r'"

text \<open>
  \<^verbatim>\<open>INSERT OR REPLACE\<close> on a table with a primary key: the row that holds the key is
  deleted and the new row is inserted with a new rowid, that is, last.
\<close>

definition insert_or_replace :: "row \<Rightarrow> table \<Rightarrow> table" where
  "insert_or_replace r t = filter (\<lambda>r'. \<not> same_key r r') t @ [r]"

text \<open>
  \<^verbatim>\<open>cur.execute("INSERT OR REPLACE INTO {table_name} ...")\<close>: sqlite raises
  \<^verbatim>\<open>OperationalError\<close> when the table does not exist. Every operation returns the
  connection with its result, since a raise leaves what was executed before it.
  The connection is the one the caller holds, which sees its own statements at once:
  \<^verbatim>\<open>conn.commit()\<close> changes nothing that connection reads, and is left out.
\<close>

definition execute_insert :: "conn \<Rightarrow> string \<Rightarrow> row \<Rightarrow> (error + unit) \<times> conn" where
  "execute_insert c table_name r =
     (case c table_name of
        None \<Rightarrow> (Inl OperationalError, c)
      | Some t \<Rightarrow> (Inr (), c(table_name \<mapsto> insert_or_replace r t)))"

text \<open>\<^verbatim>\<open>obj.items()\<close>: only a dict has the method.\<close>

fun items :: "'f json \<Rightarrow> error + (string \<times> 'f json) list" where
  "items (JObj kvs) = Inr kvs"
| "items v = Inl AttributeError"

section \<open>Insertion\<close>

text \<open>
  \<^verbatim>\<open>canonical_json\<close> (of \<^verbatim>\<open>jsonstore.canonicaljson\<close>), \<^verbatim>\<open>hashlib.sha1(s.encode("utf-8")).hexdigest()\<close>
  and \<^verbatim>\<open>json.loads\<close> are not part of \<^verbatim>\<open>table.py\<close>: the operations take them as the
  parameters \<open>enc\<close>, \<open>sha1\<close> and \<open>dec\<close> (\<open>None\<close> when \<^verbatim>\<open>json.loads\<close> raises).
\<close>

text \<open>The loop of \<^verbatim>\<open>insert_object\<close> over \<^verbatim>\<open>obj.items()\<close>.\<close>

fun insert_object_loop ::
  "('f json \<Rightarrow> string) \<Rightarrow> (string \<Rightarrow> string) \<Rightarrow> conn \<Rightarrow> string \<Rightarrow>
   (string \<times> 'f json) list \<Rightarrow> string \<Rightarrow> (error + unit) \<times> conn" where
  "insert_object_loop enc sha1 c h [] table_name = (Inr (), c)"
| "insert_object_loop enc sha1 c h ((key, val) # rest) table_name =
     (let value = enc val;
          value_sha1 = sha1 value
      in case execute_insert c table_name
                \<lparr>canonical_json_sha1 = h, property_name = key,
                 property_json = Some value, property_json_sha1 = Some value_sha1\<rparr> of
           (Inl e, c') \<Rightarrow> (Inl e, c')
         | (Inr u, c') \<Rightarrow> insert_object_loop enc sha1 c' h rest table_name)"

definition insert_object ::
  "('f json \<Rightarrow> string) \<Rightarrow> (string \<Rightarrow> string) \<Rightarrow> conn \<Rightarrow> string \<Rightarrow>
   'f json \<Rightarrow> string \<Rightarrow> (error + unit) \<times> conn" where
  "insert_object enc sha1 c h obj table_name =
     (case items obj of
        Inl e \<Rightarrow> (Inl e, c)
      | Inr kvs \<Rightarrow> insert_object_loop enc sha1 c h kvs table_name)"

definition insert_object_auto_hash ::
  "('f json \<Rightarrow> string) \<Rightarrow> (string \<Rightarrow> string) \<Rightarrow> conn \<Rightarrow>
   'f json \<Rightarrow> string \<Rightarrow> (error + string) \<times> conn" where
  "insert_object_auto_hash enc sha1 c obj table_name =
     (let canonical = enc obj;
          h = sha1 canonical
      in case insert_object enc sha1 c h obj table_name of
           (Inl e, c') \<Rightarrow> (Inl e, c')
         | (Inr u, c') \<Rightarrow> (Inr h, c'))"

text \<open>
  The inner loop of \<^verbatim>\<open>insert_objects_auto_hash\<close>: its statement names three columns,
  so \<^verbatim>\<open>property_json_sha1\<close> of the new row is \<^verbatim>\<open>NULL\<close>.
\<close>

fun insert_objects_inner ::
  "('f json \<Rightarrow> string) \<Rightarrow> conn \<Rightarrow> string \<Rightarrow>
   (string \<times> 'f json) list \<Rightarrow> string \<Rightarrow> (error + unit) \<times> conn" where
  "insert_objects_inner enc c h [] table_name = (Inr (), c)"
| "insert_objects_inner enc c h ((key, val) # rest) table_name =
     (case execute_insert c table_name
             \<lparr>canonical_json_sha1 = h, property_name = key,
              property_json = Some (enc val), property_json_sha1 = None\<rparr> of
        (Inl e, c') \<Rightarrow> (Inl e, c')
      | (Inr u, c') \<Rightarrow> insert_objects_inner enc c' h rest table_name)"

text \<open>The outer loop, with the list \<^verbatim>\<open>hashes\<close> built so far.\<close>

fun insert_objects_loop ::
  "('f json \<Rightarrow> string) \<Rightarrow> (string \<Rightarrow> string) \<Rightarrow> conn \<Rightarrow>
   'f json list \<Rightarrow> string \<Rightarrow> string list \<Rightarrow> (error + string list) \<times> conn" where
  "insert_objects_loop enc sha1 c [] table_name hashes = (Inr hashes, c)"
| "insert_objects_loop enc sha1 c (obj # objs) table_name hashes =
     (let canon = enc obj;
          h = sha1 canon
      in case items obj of
           Inl e \<Rightarrow> (Inl e, c)
         | Inr kvs \<Rightarrow>
             (case insert_objects_inner enc c h kvs table_name of
                (Inl e, c') \<Rightarrow> (Inl e, c')
              | (Inr u, c') \<Rightarrow>
                  insert_objects_loop enc sha1 c' objs table_name (hashes @ [h])))"

definition insert_objects_auto_hash ::
  "('f json \<Rightarrow> string) \<Rightarrow> (string \<Rightarrow> string) \<Rightarrow> conn \<Rightarrow>
   'f json list \<Rightarrow> string \<Rightarrow> (error + string list) \<times> conn" where
  "insert_objects_auto_hash enc sha1 c objs table_name =
     insert_objects_loop enc sha1 c objs table_name []"

section \<open>Retrieval\<close>

text \<open>\<^verbatim>\<open>json.loads(x) if x is not None else None\<close>.\<close>

fun loads_or_none :: "(string \<Rightarrow> 'f json option) \<Rightarrow> string option \<Rightarrow> error + 'f json" where
  "loads_or_none dec None = Inr JNull"
| "loads_or_none dec (Some s) =
     (case dec s of None \<Rightarrow> Inl JSONDecodeError | Some v \<Rightarrow> Inr v)"

text \<open>\<^verbatim>\<open>SELECT property_name, property_json FROM t WHERE canonical_json_sha1 = ?\<close>.\<close>

definition select_where_hash :: "table \<Rightarrow> string \<Rightarrow> (string \<times> string option) list" where
  "select_where_hash t h =
     map (\<lambda>r. (property_name r, property_json r)) (filter (\<lambda>r. canonical_json_sha1 r = h) t)"

text \<open>The loop of \<^verbatim>\<open>retrieve_object\<close> over the fetched rows, filling \<^verbatim>\<open>result\<close>.\<close>

fun retrieve_loop ::
  "(string \<Rightarrow> 'f json option) \<Rightarrow> (string \<times> string option) list \<Rightarrow>
   (string \<times> 'f json) list \<Rightarrow> error + (string \<times> 'f json) list" where
  "retrieve_loop dec [] result = Inr result"
| "retrieve_loop dec ((name, pj) # rows) result =
     (case loads_or_none dec pj of
        Inl e \<Rightarrow> Inl e
      | Inr v \<Rightarrow> retrieve_loop dec rows (dict_set name v result))"

definition retrieve_object ::
  "(string \<Rightarrow> 'f json option) \<Rightarrow> conn \<Rightarrow> string \<Rightarrow> string \<Rightarrow>
   error + (string \<times> 'f json) list" where
  "retrieve_object dec c h table_name =
     (case c table_name of
        None \<Rightarrow> Inl OperationalError
      | Some t \<Rightarrow> retrieve_loop dec (select_where_hash t h) [])"

text \<open>
  The loop of \<^verbatim>\<open>retrieve_all_objects\<close>, with its three variables \<^verbatim>\<open>results\<close>,
  \<^verbatim>\<open>current_hash\<close> and \<^verbatim>\<open>current_obj\<close>.
\<close>

fun retrieve_all_loop ::
  "(string \<Rightarrow> 'f json option) \<Rightarrow> row list \<Rightarrow> (string \<times> 'f json) list list \<Rightarrow>
   string option \<Rightarrow> (string \<times> 'f json) list \<Rightarrow>
   error + ((string \<times> 'f json) list list \<times> string option \<times> (string \<times> 'f json) list)" where
  "retrieve_all_loop dec [] results current_hash current_obj =
     Inr (results, current_hash, current_obj)"
| "retrieve_all_loop dec (r # rows) results current_hash current_obj =
     (let obj_hash = canonical_json_sha1 r;
          results' = (if Some obj_hash \<noteq> current_hash \<and> current_hash \<noteq> None
                      then results @ [current_obj] else results);
          current_obj' = (if Some obj_hash \<noteq> current_hash then [] else current_obj);
          current_hash' = (if Some obj_hash \<noteq> current_hash then Some obj_hash else current_hash)
      in case loads_or_none dec (property_json r) of
           Inl e \<Rightarrow> Inl e
         | Inr v \<Rightarrow>
             retrieve_all_loop dec rows results' current_hash'
               (dict_set (property_name r) v current_obj'))"

text \<open>
  \<^verbatim>\<open>ORDER BY canonical_json_sha1\<close> compares the texts byte by byte; rows with the same
  text stay in rowid order (a stable sort).
\<close>

definition retrieve_all_objects ::
  "(string \<Rightarrow> 'f json option) \<Rightarrow> conn \<Rightarrow> string \<Rightarrow>
   error + (string \<times> 'f json) list list" where
  "retrieve_all_objects dec c table_name =
     (case c table_name of
        None \<Rightarrow> Inl OperationalError
      | Some t \<Rightarrow>
          (case retrieve_all_loop dec (sort_key canonical_json_sha1 t) [] None [] of
             Inl e \<Rightarrow> Inl e
           | Inr (results, current_hash, current_obj) \<Rightarrow>
               Inr (if current_hash \<noteq> None then results @ [current_obj] else results)))"

section \<open>The canonical encoder\<close>

text \<open>
  Modelled from the spec: \<^verbatim>\<open>canonical_json\<close> of \<^verbatim>\<open>jsonstore.canonicaljson\<close>, which
  \<^verbatim>\<open>table.py\<close> imports and which is not among the source files. The spec's encoder:
  \<open>Null\<close> and \<open>Boolean\<close> are fixed tokens; an integer is its plain decimal numeral with
  a sign only when negative; a string is quoted, with the quote, the escape character
  and the control characters escaped and every other byte passed through; an array is
  bracketed, its elements in order and separated by commas; an object is braced, its
  keys sorted byte-wise and each member written \<^verbatim>\<open>"key":value\<close>. The rendering of a
  float is the parameter \<open>fl\<close>.
\<close>

definition hex_digit :: "nat \<Rightarrow> char" where
  "hex_digit n = ''0123456789abcdef'' ! n"

definition escape_char :: "char \<Rightarrow> string" where
  "escape_char ch =
     (if ch = CHR 0x22 then [CHR 0x5C, CHR 0x22]
      else if ch = CHR 0x5C then [CHR 0x5C, CHR 0x5C]
      else if (of_char ch :: nat) < 32
        then [CHR 0x5C, CHR ''u'', CHR ''0'', CHR ''0'',
              hex_digit (of_char ch div 16), hex_digit (of_char ch mod 16)]
      else [ch])"

definition quote :: "string \<Rightarrow> string" where
  "quote s = CHR 0x22 # concat (map escape_char s) @ [CHR 0x22]"

fun render_nat :: "nat \<Rightarrow> string" where
  "render_nat n =
     (if n < 10 then [hex_digit n]
      else render_nat (n div 10) @ [hex_digit (n mod 10)])"

definition render_int :: "int \<Rightarrow> string" where
  "render_int i = (if i < 0 then CHR ''-'' # render_nat (nat (- i)) else render_nat (nat i))"

fun join_commas :: "string list \<Rightarrow> string" where
  "join_commas [] = []"
| "join_commas [x] = x"
| "join_commas (x # y # zs) = x @ '','' @ join_commas (y # zs)"

definition render_member :: "string \<times> string \<Rightarrow> string" where
  "render_member m = quote (fst m) @ '':'' @ snd m"

fun canonical_json :: "('f \<Rightarrow> string) \<Rightarrow> 'f json \<Rightarrow> string" where
  "canonical_json fl JNull = ''null''"
| "canonical_json fl (JBool b) = (if b then ''true'' else ''false'')"
| "canonical_json fl (JInt i) = render_int i"
| "canonical_json fl (JFloat x) = fl x"
| "canonical_json fl (JStr s) = quote s"
| "canonical_json fl (JArr xs) = ''['' @ join_commas (map (canonical_json fl) xs) @ '']''"
| "canonical_json fl (JObj kvs) =
     ''{'' @ join_commas (map render_member
              (sort_key fst (map (\<lambda>(k, v). (k, canonical_json fl v)) kvs))) @ ''}''"

section \<open>Rows written and examples\<close>

text \<open>The rows \<^verbatim>\<open>insert_object\<close> executes its statement with, one per item, in order.\<close>

definition object_rows ::
  "('f json \<Rightarrow> string) \<Rightarrow> (string \<Rightarrow> string) \<Rightarrow> string \<Rightarrow> (string \<times> 'f json) list \<Rightarrow> row list" where
  "object_rows enc sha1 h kvs =
     map (\<lambda>(key, val). \<lparr>canonical_json_sha1 = h, property_name = key,
            property_json = Some (enc val), property_json_sha1 = Some (sha1 (enc val))\<rparr>) kvs"

text \<open>The rows \<^verbatim>\<open>insert_objects_auto_hash\<close> executes its statement with for one object.\<close>

definition batch_rows ::
  "('f json \<Rightarrow> string) \<Rightarrow> string \<Rightarrow> (string \<times> 'f json) list \<Rightarrow> row list" where
  "batch_rows enc h kvs =
     map (\<lambda>(key, val). \<lparr>canonical_json_sha1 = h, property_name = key,
            property_json = Some (enc val), property_json_sha1 = None\<rparr>) kvs"

text \<open>A run of \<^verbatim>\<open>INSERT OR REPLACE\<close> statements on one table.\<close>

definition put_rows :: "row list \<Rightarrow> table \<Rightarrow> table" where
  "put_rows rs t = fold insert_or_replace rs t"

text \<open>The primary key of a row.\<close>

definition pk :: "row \<Rightarrow> string \<times> string" where
  "pk r = (canonical_json_sha1 r, property_name r)"


text \<open>
  \<^verbatim>\<open>json.loads\<close> on the texts the examples below store: the literals \<^verbatim>\<open>null\<close>,
  \<^verbatim>\<open>true\<close>, \<^verbatim>\<open>false\<close> and the decimal integers (no leading zero, an optional minus
  sign). It is only used as the decoder of concrete examples; every other text is
  outside this fragment.
\<close>

definition digit_value :: "char \<Rightarrow> nat option" where
  "digit_value ch =
     map_of [(CHR ''0'', 0), (CHR ''1'', 1), (CHR ''2'', 2), (CHR ''3'', 3), (CHR ''4'', 4),
             (CHR ''5'', 5), (CHR ''6'', 6), (CHR ''7'', 7), (CHR ''8'', 8), (CHR ''9'', 9)] ch"

fun parse_nat :: "string \<Rightarrow> nat \<Rightarrow> nat option" where
  "parse_nat [] acc = Some acc"
| "parse_nat (ch # cs) acc =
     (case digit_value ch of None \<Rightarrow> None | Some d \<Rightarrow> parse_nat cs (10 * acc + d))"

definition parse_digits :: "string \<Rightarrow> nat option" where
  "parse_digits ds =
     (if ds = [] \<or> (hd ds = CHR ''0'' \<and> tl ds \<noteq> []) then None else parse_nat ds 0)"

definition loads_literal :: "string \<Rightarrow> 'f json option" where
  "loads_literal s =
     (if s = ''null'' then Some JNull
      else if s = ''true'' then Some (JBool True)
      else if s = ''false'' then Some (JBool False)
      else case s of
             [] \<Rightarrow> None
           | ch # ds \<Rightarrow>
               if ch = CHR ''-'' then map_option (\<lambda>n. JInt (- int n)) (parse_digits ds)
               else map_option (\<lambda>n. JInt (int n)) (parse_digits s))"

text \<open>
  The codec of the examples: the encoder of the spec, and a digest that cannot collide
  in place of SHA-1.
\<close>

definition example_sha1 :: "string \<Rightarrow> string" where
  "example_sha1 s = ''sha1:'' @ s"

definition example_enc :: "unit json \<Rightarrow> string" where
  "example_enc = canonical_json (\<lambda>x. ''0.5'')"


text \<open>
  A connection with one table that holds the object \<^verbatim>\<open>{"a": 1, "b": 2}\<close> under the
  fingerprint \<^verbatim>\<open>h1\<close>.
\<close>

definition example_conn :: conn where
  "example_conn =
     [''objects'' \<mapsto>
        [\<lparr>canonical_json_sha1 = ''h1'', property_name = ''a'',
          property_json = Some ''1'', property_json_sha1 = Some ''sha1:1''\<rparr>,
         \<lparr>canonical_json_sha1 = ''h1'', property_name = ''b'',
          property_json = Some ''2'', property_json_sha1 = Some ''sha1:2''\<rparr>]]"

text \<open>A scalar is a value that is neither an object nor an array.\<close>

fun is_scalar :: "'f json \<Rightarrow> bool" where
  "is_scalar (JArr xs) = False"
| "is_scalar (JObj kvs) = False"
| "is_scalar v = True"


text \<open>A table with two fingerprints whose rows are interleaved in rowid order.\<close>

definition example_table :: table where
  "example_table =
     [\<lparr>canonical_json_sha1 = ''h2'', property_name = ''x'',
       property_json = Some ''5'', property_json_sha1 = None\<rparr>,
      \<lparr>canonical_json_sha1 = ''h1'', property_name = ''a'',
       property_json = Some ''1'', property_json_sha1 = Some ''sha1:1''\<rparr>,
      \<lparr>canonical_json_sha1 = ''h2'', property_name = ''y'',
       property_json = None, property_json_sha1 = None\<rparr>,
      \<lparr>canonical_json_sha1 = ''h1'', property_name = ''b'',
       property_json = Some ''2'', property_json_sha1 = Some ''sha1:2''\<rparr>]"

text \<open>The two columns \<^verbatim>\<open>retrieve_object\<close> and \<^verbatim>\<open>retrieve_all_objects\<close> read of each row.\<close>

definition fetched :: "row list \<Rightarrow> (string \<times> string option) list" where
  "fetched rows = map (\<lambda>r. (property_name r, property_json r)) rows"

text \<open>The end of \<^verbatim>\<open>retrieve_all_objects\<close>: the last object is appended after the loop.\<close>

definition flush ::
  "error + ((string \<times> 'f json) list list \<times> string option \<times> (string \<times> 'f json) list) \<Rightarrow>
   error + (string \<times> 'f json) list list" where
  "flush res =
     (case res of
        Inl e \<Rightarrow> Inl e
      | Inr (results, current_hash, current_obj) \<Rightarrow>
          Inr (if current_hash \<noteq> None then results @ [current_obj] else results))"

text \<open>A row that \<^verbatim>\<open>json.loads\<close> accepts: its \<^verbatim>\<open>property_json\<close> is \<^verbatim>\<open>NULL\<close> or a text that decodes.\<close>

definition decodable :: "(string \<Rightarrow> 'f json option) \<Rightarrow> row \<Rightarrow> bool" where
  "decodable dec r = (case property_json r of None \<Rightarrow> True | Some s \<Rightarrow> dec s \<noteq> None)"

text \<open>
  The spec's reading of a batch: \<^verbatim>\<open>insert_object_auto_hash\<close> called on every element in
  turn, the fingerprints collected in order, the first error ending the run. It is written from
  the spec's words, to be compared with \<^verbatim>\<open>insert_objects_auto_hash\<close> of the source.
\<close>

fun insert_each ::
  "('f json \<Rightarrow> string) \<Rightarrow> (string \<Rightarrow> string) \<Rightarrow> conn \<Rightarrow>
   'f json list \<Rightarrow> string \<Rightarrow> (error + string list) \<times> conn" where
  "insert_each enc sha1 c [] table_name = (Inr [], c)"
| "insert_each enc sha1 c (obj # objs) table_name =
     (case insert_object_auto_hash enc sha1 c obj table_name of
        (Inl e, c') \<Rightarrow> (Inl e, c')
      | (Inr h, c') \<Rightarrow>
          (case insert_each enc sha1 c' objs table_name of
             (Inl e, c'') \<Rightarrow> (Inl e, c'')
           | (Inr hs, c'') \<Rightarrow> (Inr (h # hs), c'')))"

text \<open>A row with its \<^verbatim>\<open>property_json_sha1\<close> column set to \<^verbatim>\<open>NULL\<close>.\<close>

definition clear_digest :: "row \<Rightarrow> row" where
  "clear_digest r = r\<lparr>property_json_sha1 := None\<rparr>"

text \<open>Two connections whose tables agree in every column but \<^verbatim>\<open>property_json_sha1\<close>.\<close>

definition same_but_digest :: "conn \<Rightarrow> conn \<Rightarrow> bool" where
  "same_but_digest c c' \<longleftrightarrow>
     (\<forall>tn. map_option (map clear_digest) (c tn) = map_option (map clear_digest) (c' tn))"

text \<open>
  The row invariant of the spec: \<^verbatim>\<open>property_json\<close> is present and \<^verbatim>\<open>property_json_sha1\<close> is its
  digest.
\<close>

definition digest_ok :: "(string \<Rightarrow> string) \<Rightarrow> row \<Rightarrow> bool" where
  "digest_ok sha1 r \<longleftrightarrow>
     (case property_json r of
        None \<Rightarrow> False
      | Some s \<Rightarrow> property_json_sha1 r = Some (sha1 s))"


section \<open>Properties\<close>

subsection \<open>Runs of \<^verbatim>\<open>INSERT OR REPLACE\<close>\<close>

lemma same_key_pk: "same_key r r' \<longleftrightarrow> pk r = pk r'"
  by (simp add: same_key_def pk_def)

lemma put_rows_Nil [simp]: "put_rows [] t = t"
  by (simp add: put_rows_def)

lemma put_rows_Cons [simp]: "put_rows (r # rs) t = put_rows rs (insert_or_replace r t)"
  by (simp add: put_rows_def)

lemma object_rows_Nil [simp]: "object_rows enc sha1 h [] = []"
  by (simp add: object_rows_def)

lemma object_rows_Cons [simp]:
  "object_rows enc sha1 h ((k, v) # kvs) =
     \<lparr>canonical_json_sha1 = h, property_name = k, property_json = Some (enc v),
      property_json_sha1 = Some (sha1 (enc v))\<rparr> # object_rows enc sha1 h kvs"
  by (simp add: object_rows_def)

lemma batch_rows_Nil [simp]: "batch_rows enc h [] = []"
  by (simp add: batch_rows_def)

lemma batch_rows_Cons [simp]:
  "batch_rows enc h ((k, v) # kvs) =
     \<lparr>canonical_json_sha1 = h, property_name = k, property_json = Some (enc v),
      property_json_sha1 = None\<rparr> # batch_rows enc h kvs"
  by (simp add: batch_rows_def)

lemma insert_object_loop_Some:
  "c tn = Some t \<Longrightarrow>
   insert_object_loop enc sha1 c h kvs tn =
     (Inr (), c(tn \<mapsto> put_rows (object_rows enc sha1 h kvs) t))"
proof (induction kvs arbitrary: c t)
  case Nil
  then show ?case by (simp add: fun_upd_idem)
next
  case (Cons kv kvs)
  obtain k v where kv: "kv = (k, v)" by (cases kv)
  define r where "r = \<lparr>canonical_json_sha1 = h, property_name = k, property_json = Some (enc v),
      property_json_sha1 = Some (sha1 (enc v))\<rparr>"
  have upd: "(c(tn \<mapsto> insert_or_replace r t)) tn = Some (insert_or_replace r t)" by simp
  from Cons.IH [of "c(tn \<mapsto> insert_or_replace r t)" "insert_or_replace r t", OF upd]
  have "insert_object_loop enc sha1 (c(tn \<mapsto> insert_or_replace r t)) h kvs tn =
          (Inr (), c(tn \<mapsto> put_rows (object_rows enc sha1 h kvs) (insert_or_replace r t)))"
    by (simp del: fun_upd_apply)
  then show ?case
    using Cons.prems by (simp add: kv execute_insert_def Let_def r_def del: fun_upd_apply)
qed

lemma insert_object_loop_None:
  "c tn = None \<Longrightarrow>
   insert_object_loop enc sha1 c h kvs tn =
     (if kvs = [] then Inr () else Inl OperationalError, c)"
  by (cases kvs) (auto simp: execute_insert_def)

lemma insert_objects_inner_Some:
  "c tn = Some t \<Longrightarrow>
   insert_objects_inner enc c h kvs tn =
     (Inr (), c(tn \<mapsto> put_rows (batch_rows enc h kvs) t))"
proof (induction kvs arbitrary: c t)
  case Nil
  then show ?case by (simp add: fun_upd_idem)
next
  case (Cons kv kvs)
  obtain k v where kv: "kv = (k, v)" by (cases kv)
  define r where "r = \<lparr>canonical_json_sha1 = h, property_name = k, property_json = Some (enc v),
      property_json_sha1 = None\<rparr>"
  have upd: "(c(tn \<mapsto> insert_or_replace r t)) tn = Some (insert_or_replace r t)" by simp
  from Cons.IH [of "c(tn \<mapsto> insert_or_replace r t)" "insert_or_replace r t", OF upd]
  have "insert_objects_inner enc (c(tn \<mapsto> insert_or_replace r t)) h kvs tn =
          (Inr (), c(tn \<mapsto> put_rows (batch_rows enc h kvs) (insert_or_replace r t)))"
    by (simp del: fun_upd_apply)
  then show ?case
    using Cons.prems by (simp add: kv execute_insert_def r_def del: fun_upd_apply)
qed

lemma insert_objects_inner_None:
  "c tn = None \<Longrightarrow>
   insert_objects_inner enc c h kvs tn =
     (if kvs = [] then Inr () else Inl OperationalError, c)"
  by (cases kvs) (auto simp: execute_insert_def)

lemma filter_insert_or_replace:
  "filter (\<lambda>x. pk x \<notin> pk ` set rs) (insert_or_replace r t) =
     filter (\<lambda>x. pk x \<notin> pk ` set (r # rs)) t @ filter (\<lambda>x. pk x \<notin> pk ` set rs) [r]"
  by (auto simp: insert_or_replace_def same_key_pk intro!: filter_cong)

lemma put_rows_split:
  "put_rows rs t = filter (\<lambda>r. pk r \<notin> pk ` set rs) t @ put_rows rs []"
proof (induction rs arbitrary: t)
  case Nil
  then show ?case by simp
next
  case (Cons r rs)
  have one: "put_rows (r # rs) [] = filter (\<lambda>x. pk x \<notin> pk ` set rs) [r] @ put_rows rs []"
    using Cons.IH [of "[r]"] by (simp add: insert_or_replace_def)
  have "put_rows (r # rs) t = put_rows rs (insert_or_replace r t)" by simp
  also have "\<dots> = filter (\<lambda>x. pk x \<notin> pk ` set rs) (insert_or_replace r t) @ put_rows rs []"
    by (rule Cons.IH)
  also have "\<dots> = filter (\<lambda>x. pk x \<notin> pk ` set (r # rs)) t @ put_rows (r # rs) []"
    unfolding filter_insert_or_replace one by simp
  finally show ?case .
qed

lemma set_insert_or_replace: "set (insert_or_replace r t) \<subseteq> insert r (set t)"
  by (auto simp: insert_or_replace_def)

lemma set_put_rows: "set (put_rows rs t) \<subseteq> set t \<union> set rs"
proof (induction rs arbitrary: t)
  case Nil
  then show ?case by simp
next
  case (Cons r rs)
  have "set (put_rows (r # rs) t) \<subseteq> set (insert_or_replace r t) \<union> set rs"
    using Cons.IH [of "insert_or_replace r t"] by simp
  with set_insert_or_replace [of r t] show ?case by auto
qed

lemma put_rows_distinct: "distinct (map pk rs) \<Longrightarrow> put_rows rs [] = rs"
proof (induction rs)
  case Nil
  then show ?case by simp
next
  case (Cons r rs)
  have "put_rows (r # rs) [] = put_rows rs [r]" by (simp add: insert_or_replace_def)
  also have "\<dots> = filter (\<lambda>x. pk x \<notin> pk ` set rs) [r] @ put_rows rs []"
    by (rule put_rows_split)
  also have "\<dots> = r # rs" using Cons by auto
  finally show ?case .
qed

lemma put_rows_idem: "put_rows rs (put_rows rs t) = put_rows rs t"
proof -
  have "put_rows rs (put_rows rs t) =
        filter (\<lambda>r. pk r \<notin> pk ` set rs) (put_rows rs t) @ put_rows rs []"
    by (rule put_rows_split)
  also have "put_rows rs t = filter (\<lambda>r. pk r \<notin> pk ` set rs) t @ put_rows rs []"
    by (rule put_rows_split)
  also have "filter (\<lambda>r. pk r \<notin> pk ` set rs) (filter (\<lambda>r. pk r \<notin> pk ` set rs) t @ put_rows rs []) =
             filter (\<lambda>r. pk r \<notin> pk ` set rs) t"
    using set_put_rows [of rs "[]"] by (auto simp: filter_empty_conv)
  finally show ?thesis by (simp add: put_rows_split [symmetric])
qed

lemma distinct_pk_object_rows:
  "distinct (map fst kvs) \<Longrightarrow> distinct (map pk (object_rows enc sha1 h kvs))"
proof -
  have "map pk (object_rows enc sha1 h kvs) = map (\<lambda>k. (h, k)) (map fst kvs)"
    by (induction kvs) (auto simp: pk_def)
  moreover assume "distinct (map fst kvs)"
  ultimately show ?thesis by (simp add: distinct_map inj_on_def)
qed

lemma hash_object_rows: "r \<in> set (object_rows enc sha1 h kvs) \<Longrightarrow> canonical_json_sha1 r = h"
  by (auto simp: object_rows_def)

lemma filter_hash_put_rows:
  assumes "\<forall>r \<in> set rs. canonical_json_sha1 r \<noteq> h'"
  shows "filter (\<lambda>r. canonical_json_sha1 r = h') (put_rows rs t) =
         filter (\<lambda>r. canonical_json_sha1 r = h') t"
proof -
  have new: "filter (\<lambda>r. canonical_json_sha1 r = h') (put_rows rs []) = []"
    using assms set_put_rows [of rs "[]"] by (auto simp: filter_empty_conv)
  have old: "filter (\<lambda>r. pk r \<notin> pk ` set rs \<and> canonical_json_sha1 r = h') t =
             filter (\<lambda>r. canonical_json_sha1 r = h') t"
  proof -
    have *: "pk r \<notin> pk ` set rs" if "canonical_json_sha1 r = h'" for r
      using assms that by (auto simp: pk_def)
    show ?thesis
    proof (rule filter_cong [OF refl])
      fix x
      show "(pk x \<notin> pk ` set rs \<and> canonical_json_sha1 x = h') = (canonical_json_sha1 x = h')"
        using * [of x] by blast
    qed
  qed
  show ?thesis
    by (subst put_rows_split) (simp add: new old)
qed


lemma insert_object_auto_hash_Some:
  "c tn = Some t \<Longrightarrow>
   insert_object_auto_hash enc sha1 c (JObj kvs) tn =
     (Inr (sha1 (enc (JObj kvs))),
      c(tn \<mapsto> put_rows (object_rows enc sha1 (sha1 (enc (JObj kvs))) kvs) t))"
  by (simp add: insert_object_auto_hash_def insert_object_def insert_object_loop_Some Let_def
           del: fun_upd_apply)

lemma items_scalar: "is_scalar v \<Longrightarrow> items v = Inl AttributeError"
  by (cases v) simp_all

lemma insert_object_state:
  "snd (insert_object enc sha1 c h obj tn) =
     (case items obj of
        Inl e \<Rightarrow> c
      | Inr kvs \<Rightarrow>
          (case c tn of
             None \<Rightarrow> c
           | Some t \<Rightarrow> c(tn \<mapsto> put_rows (object_rows enc sha1 h kvs) t)))"
  by (auto simp: insert_object_def insert_object_loop_Some insert_object_loop_None
           split: sum.splits option.splits)

lemma fst_insert_object_auto_hash:
  "c tn = Some t \<Longrightarrow>
   fst (insert_object_auto_hash enc sha1 c obj tn) =
     (case items obj of Inl e \<Rightarrow> Inl e | Inr kvs \<Rightarrow> Inr (sha1 (enc obj)))"
  by (auto simp: insert_object_auto_hash_def insert_object_def insert_object_loop_Some Let_def
           split: sum.splits)

subsection \<open>Reading rows back\<close>


lemma map_of_dict_set: "map_of (dict_set k v d) = (map_of d)(k \<mapsto> v)"
  by (induction d) (auto simp: fun_eq_iff)

lemma select_where_hash_object_rows:
  "select_where_hash (object_rows enc sha1 h kvs) h = map (\<lambda>(k, v). (k, Some (enc v))) kvs"
  by (induction kvs) (auto simp: select_where_hash_def)

lemma select_where_hash_append:
  "select_where_hash (t @ t') h = select_where_hash t h @ select_where_hash t' h"
  by (simp add: select_where_hash_def)

lemma select_where_hash_filter_pk:
  "select_where_hash (filter (\<lambda>r. pk r \<notin> pk ` set (object_rows enc sha1 h kvs)) t) h =
     filter (\<lambda>r. fst r \<notin> fst ` set kvs) (select_where_hash t h)"
proof -
  have "pk ` set (object_rows enc sha1 h kvs) = (\<lambda>k. (h, k)) ` fst ` set kvs"
    by (force simp: object_rows_def pk_def image_iff)
  then show ?thesis
    by (induction t) (auto simp: select_where_hash_def pk_def)
qed

lemma select_where_hash_fetched:
  "select_where_hash t h = fetched (filter (\<lambda>r. canonical_json_sha1 r = h) t)"
  by (simp add: select_where_hash_def fetched_def)


lemma retrieve_loop_append:
  "retrieve_loop dec (rows @ rows') acc =
     (case retrieve_loop dec rows acc of Inl e \<Rightarrow> Inl e | Inr d \<Rightarrow> retrieve_loop dec rows' d)"
proof (induction rows arbitrary: acc)
  case Nil
  then show ?case by simp
next
  case (Cons r rows)
  obtain n pj where r: "r = (n, pj)" by (cases r)
  show ?case by (simp add: r Cons.IH split: sum.splits)
qed

lemma retrieve_loop_filter:
  assumes "retrieve_loop dec rows acc = Inr d"
      and "\<forall>k. k \<notin> K \<longrightarrow> map_of acc' k = map_of acc k"
  shows "\<exists>d'. retrieve_loop dec (filter (\<lambda>r. fst r \<notin> K) rows) acc' = Inr d' \<and>
              (\<forall>k. map_of d' k = (if k \<in> K then map_of acc' k else map_of d k))"
  using assms
proof (induction rows arbitrary: acc acc')
  case Nil
  then show ?case by auto
next
  case (Cons r rows)
  obtain n pj where r: "r = (n, pj)" by (cases r)
  from Cons.prems(1) obtain v where v: "loads_or_none dec pj = Inr v"
    and rest: "retrieve_loop dec rows (dict_set n v acc) = Inr d"
    by (auto simp: r split: sum.splits)
  show ?case
  proof (cases "n \<in> K")
    case True
    have "\<forall>k. k \<notin> K \<longrightarrow> map_of acc' k = map_of (dict_set n v acc) k"
      using Cons.prems(2) True by (auto simp: map_of_dict_set)
    from Cons.IH [OF rest this] show ?thesis by (simp add: r True)
  next
    case False
    have "\<forall>k. k \<notin> K \<longrightarrow> map_of (dict_set n v acc') k = map_of (dict_set n v acc) k"
      using Cons.prems(2) by (auto simp: map_of_dict_set)
    from Cons.IH [OF rest this] obtain d' where
      d': "retrieve_loop dec (filter (\<lambda>r. fst r \<notin> K) rows) (dict_set n v acc') = Inr d'"
      and m: "\<forall>k. map_of d' k = (if k \<in> K then map_of (dict_set n v acc') k else map_of d k)"
      by blast
    have "\<forall>k. map_of d' k = (if k \<in> K then map_of acc' k else map_of d k)"
      using m False by (auto simp: map_of_dict_set)
    with d' show ?thesis by (simp add: r False v)
  qed
qed

lemma retrieve_loop_encoded_map:
  assumes "distinct (map fst kvs)"
      and "\<forall>(k, v) \<in> set kvs. dec (enc v) \<noteq> None"
  shows "\<exists>d. retrieve_loop dec (map (\<lambda>(k, v). (k, Some (enc v))) kvs) acc = Inr d \<and>
             map_of d = map_of acc ++ map_of (map (\<lambda>(k, v). (k, the (dec (enc v)))) kvs)"
  using assms
proof (induction kvs arbitrary: acc)
  case Nil
  then show ?case by simp
next
  case (Cons kv kvs)
  obtain k v where kv: "kv = (k, v)" by (cases kv)
  from Cons.prems obtain v' where v': "dec (enc v) = Some v'" by (auto simp: kv)
  have "distinct (map fst kvs)" "\<forall>(k, v) \<in> set kvs. dec (enc v) \<noteq> None"
    using Cons.prems by auto
  from Cons.IH [OF this, of "dict_set k v' acc"] obtain d where
    d: "retrieve_loop dec (map (\<lambda>(k, v). (k, Some (enc v))) kvs) (dict_set k v' acc) = Inr d"
    and m: "map_of d = map_of (dict_set k v' acc) ++
                       map_of (map (\<lambda>(k, v). (k, the (dec (enc v)))) kvs)"
    by blast
  have fresh: "k \<notin> fst ` set kvs" using Cons.prems(1) by (auto simp: kv)
  have "map_of (map (\<lambda>(k, v). (k, the (dec (enc v)))) kvs) k = None"
    using fresh by (auto simp: map_of_eq_None_iff image_iff)
  then have m': "map_of d = map_of acc ++ map_of (map (\<lambda>(k, v). (k, the (dec (enc v)))) (kv # kvs))"
    unfolding m by (auto simp: kv v' map_of_dict_set fun_eq_iff map_add_def split: option.splits)
  have step: "retrieve_loop dec (map (\<lambda>(k, v). (k, Some (enc v))) (kv # kvs)) acc =
              retrieve_loop dec (map (\<lambda>(k, v). (k, Some (enc v))) kvs) (dict_set k v' acc)"
    by (simp add: kv v')
  show ?case unfolding step using d m' by blast
qed

lemma map_of_decoded:
  "map_of (map (\<lambda>(k, v). (k, the (dec (enc v)))) kvs) k =
     map_option (\<lambda>v. the (dec (enc v))) (map_of kvs k)"
  by (induction kvs) auto


lemma loads_or_none_decodable:
  "decodable dec r \<Longrightarrow> \<exists>v. loads_or_none dec (property_json r) = Inr v"
  by (cases "property_json r") (auto simp: decodable_def)

lemma retrieve_loop_decodable:
  "\<forall>r \<in> set rows. decodable dec r \<Longrightarrow> \<exists>d. retrieve_loop dec (fetched rows) acc = Inr d"
proof (induction rows arbitrary: acc)
  case Nil
  then show ?case by (simp add: fetched_def)
next
  case (Cons r rows)
  then obtain v where "loads_or_none dec (property_json r) = Inr v"
    using loads_or_none_decodable [of dec r] by auto
  moreover from Cons obtain d where
    "retrieve_loop dec (fetched rows) (dict_set (property_name r) v acc) = Inr d"
    by fastforce
  ultimately show ?case by (auto simp: fetched_def)
qed

subsection \<open>The example store\<close>

lemmas example_simps =
  example_conn_def example_enc_def example_sha1_def loads_literal_def parse_digits_def
  digit_value_def render_int_def hex_digit_def render_member_def quote_def escape_char_def
  insert_object_def insert_object_auto_hash_def insert_objects_auto_hash_def
  execute_insert_def insert_or_replace_def same_key_def create_object_table_def
  retrieve_object_def select_where_hash_def Let_def

lemma example_conn_inserted:
  "example_conn =
     snd (insert_object example_enc example_sha1 (create_object_table Map.empty ''objects'')
            ''h1'' (JObj [(''a'', JInt 1), (''b'', JInt 2)]) ''objects'')"
  by (simp add: example_simps)

lemma example_order: "''h1'' < ''h2''" "\<not> ''h2'' \<le> ''h1''" "''h1'' \<le> ''h2''"
  by (simp_all add: less_eq_char_def less_char_def)

subsection \<open>Insertion followed by retrieval\<close>



subsection \<open>Batch insertion against repeated single insertion\<close>

lemma same_key_clear_digest [simp]:
  "same_key (clear_digest r) (clear_digest r') = same_key r r'"
  by (simp add: same_key_def clear_digest_def)

lemma clear_digest_insert_or_replace:
  "map clear_digest (insert_or_replace r t) =
     insert_or_replace (clear_digest r) (map clear_digest t)"
  by (simp add: insert_or_replace_def filter_map comp_def)

lemma clear_digest_put_rows:
  "map clear_digest (put_rows rs t) = put_rows (map clear_digest rs) (map clear_digest t)"
  by (induction rs arbitrary: t) (simp_all add: clear_digest_insert_or_replace)

lemma clear_digest_object_rows:
  "map clear_digest (object_rows enc sha1 h kvs) = batch_rows enc h kvs"
  by (induction kvs) (auto simp: clear_digest_def)

lemma clear_digest_batch_rows:
  "map clear_digest (batch_rows enc h kvs) = batch_rows enc h kvs"
  by (induction kvs) (auto simp: clear_digest_def)

lemma same_but_digest_None: "same_but_digest c c' \<Longrightarrow> c tn = None \<longleftrightarrow> c' tn = None"
  by (metis same_but_digest_def option.map_disc_iff)

lemma same_but_digest_table:
  "same_but_digest c c' \<Longrightarrow> c tn = Some t \<Longrightarrow> c' tn = Some t' \<Longrightarrow>
   map clear_digest t = map clear_digest t'"
  by (metis same_but_digest_def option.simps(9) option.inject)

lemma same_but_digest_upd:
  "same_but_digest c c' \<Longrightarrow> map clear_digest t = map clear_digest t' \<Longrightarrow>
   same_but_digest (c(tn \<mapsto> t)) (c'(tn \<mapsto> t'))"
  by (simp add: same_but_digest_def)

lemma same_but_digest_refl: "same_but_digest c c"
  by (simp add: same_but_digest_def)

lemma batch_step_simulates:
  assumes "same_but_digest c c'"
  shows "fst (insert_objects_inner enc c h kvs tn) = fst (insert_object_loop enc sha1 c' h kvs tn) \<and>
         same_but_digest (snd (insert_objects_inner enc c h kvs tn))
                         (snd (insert_object_loop enc sha1 c' h kvs tn))"
proof (cases "c tn")
  case None
  then have "c' tn = None" using assms same_but_digest_None by blast
  with None assms show ?thesis
    by (simp add: insert_objects_inner_None insert_object_loop_None)
next
  case (Some t)
  then obtain t' where t': "c' tn = Some t'"
    using assms same_but_digest_None by (metis option.exhaust option.distinct(1))
  have "map clear_digest t = map clear_digest t'"
    using assms Some t' by (rule same_but_digest_table)
  then have m: "map clear_digest (put_rows (batch_rows enc h kvs) t) =
             map clear_digest (put_rows (object_rows enc sha1 h kvs) t')"
    by (simp add: clear_digest_put_rows clear_digest_object_rows clear_digest_batch_rows)
  have b: "insert_objects_inner enc c h kvs tn =
      (Inr (), c(tn \<mapsto> put_rows (batch_rows enc h kvs) t))"
    using Some by (rule insert_objects_inner_Some)
  have s: "insert_object_loop enc sha1 c' h kvs tn =
      (Inr (), c'(tn \<mapsto> put_rows (object_rows enc sha1 h kvs) t'))"
    using t' by (rule insert_object_loop_Some)
  show ?thesis
    unfolding b s fst_conv snd_conv
    using assms m by (simp add: same_but_digest_upd del: fun_upd_apply)
qed

lemma insert_objects_loop_hashes:
  "insert_objects_loop enc sha1 c objs tn hashes =
     (case insert_objects_loop enc sha1 c objs tn [] of
        (Inl e, c') \<Rightarrow> (Inl e, c')
      | (Inr hs, c') \<Rightarrow> (Inr (hashes @ hs), c'))"
proof (induction objs arbitrary: c hashes)
  case Nil
  then show ?case by simp
next
  case (Cons obj objs)
  show ?case
    by (simp add: Let_def Cons.IH [of _ "hashes @ [h]" for h] Cons.IH [of _ "[h]" for h]
             split: sum.splits prod.splits)
qed

lemma batch_simulates_each:
  assumes "same_but_digest c c'"
  shows "fst (insert_objects_loop enc sha1 c objs tn []) = fst (insert_each enc sha1 c' objs tn) \<and>
         same_but_digest (snd (insert_objects_loop enc sha1 c objs tn []))
                         (snd (insert_each enc sha1 c' objs tn))"
  using assms
proof (induction objs arbitrary: c c')
  case Nil
  then show ?case by simp
next
  case (Cons obj objs)
  show ?case
  proof (cases "items obj")
    case (Inl e)
    with Cons.prems show ?thesis
      by (simp add: insert_object_auto_hash_def insert_object_def Let_def)
  next
    case (Inr kvs)
    let ?h = "sha1 (enc obj)"
    obtain r1 c1 where b: "insert_objects_inner enc c ?h kvs tn = (r1, c1)" by fastforce
    obtain r2 c2 where s: "insert_object_loop enc sha1 c' ?h kvs tn = (r2, c2)" by fastforce
    from batch_step_simulates [OF Cons.prems, of enc ?h kvs tn sha1] b s
    have r: "r1 = r2" and sim: "same_but_digest c1 c2" by simp_all
    show ?thesis
    proof (cases r2)
      case (Inl e)
      with r sim b s Inr show ?thesis
        by (simp add: insert_object_auto_hash_def insert_object_def Let_def)
    next
      case (Inr u)
      obtain r3 c3 where b': "insert_objects_loop enc sha1 c1 objs tn [] = (r3, c3)"
        by fastforce
      obtain r4 c4 where s': "insert_each enc sha1 c2 objs tn = (r4, c4)" by fastforce
      from Cons.IH [OF sim] b' s' have r': "r3 = r4" and sim': "same_but_digest c3 c4"
        by simp_all
      have batch: "insert_objects_loop enc sha1 c (obj # objs) tn [] =
          (case r4 of Inl e \<Rightarrow> (Inl e, c3) | Inr hs \<Rightarrow> (Inr (?h # hs), c3))"
        using r b Inr \<open>items obj = Inr kvs\<close> b' r'
        by (simp add: Let_def insert_objects_loop_hashes [of enc sha1 c1 objs tn "[?h]"]
              split: sum.splits)
      have each: "insert_each enc sha1 c' (obj # objs) tn =
          (case r4 of Inl e \<Rightarrow> (Inl e, c4) | Inr hs \<Rightarrow> (Inr (?h # hs), c4))"
        using s Inr \<open>items obj = Inr kvs\<close> s'
        by (simp add: insert_object_auto_hash_def insert_object_def Let_def split: sum.splits)
      show ?thesis unfolding batch each using sim' by (simp split: sum.splits)
    qed
  qed
qed

text \<open>
  What the batch and the run of single insertions do share, on every input: the result (the
  fingerprints in order, or the same error) and every column of every table but
  \<^verbatim>\<open>property_json_sha1\<close>.
\<close>

lemma batch_insert_up_to_digest:
  "fst (insert_objects_auto_hash enc sha1 c objs table_name) =
   fst (insert_each enc sha1 c objs table_name) \<and>
   same_but_digest (snd (insert_objects_auto_hash enc sha1 c objs table_name))
                   (snd (insert_each enc sha1 c objs table_name))"
  unfolding insert_objects_auto_hash_def
  by (rule batch_simulates_each) (rule same_but_digest_refl)

text \<open>
  C2 fails on the code. For the one object \<^verbatim>\<open>{"a": 1}\<close> and a table just created,
  \<^verbatim>\<open>insert_objects_auto_hash\<close> returns the fingerprint \<^verbatim>\<open>insert_object_auto_hash\<close>
  returns, but the row it leaves has \<^verbatim>\<open>property_json_sha1\<close> \<^verbatim>\<open>NULL\<close> where the single
  insert stores the digest of the member's canonical text.
\<close>

theorem batch_insert_state_differs:
  "insert_objects_auto_hash enc sha1 (create_object_table Map.empty ''objects'')
     [JObj [(''a'', JInt 1)]] ''objects''
   = (Inr [sha1 (enc (JObj [(''a'', JInt 1)]))],
      [''objects'' \<mapsto>
         [\<lparr>canonical_json_sha1 = sha1 (enc (JObj [(''a'', JInt 1)])), property_name = ''a'',
           property_json = Some (enc (JInt 1)), property_json_sha1 = None\<rparr>]]) \<and>
   insert_object_auto_hash enc sha1 (create_object_table Map.empty ''objects'')
     (JObj [(''a'', JInt 1)]) ''objects''
   = (Inr (sha1 (enc (JObj [(''a'', JInt 1)]))),
      [''objects'' \<mapsto>
         [\<lparr>canonical_json_sha1 = sha1 (enc (JObj [(''a'', JInt 1)])), property_name = ''a'',
           property_json = Some (enc (JInt 1)),
           property_json_sha1 = Some (sha1 (enc (JInt 1)))\<rparr>]])"
  by (simp add: insert_objects_auto_hash_def insert_object_auto_hash_def insert_object_def
        execute_insert_def insert_or_replace_def create_object_table_def Let_def)

subsection \<open>Insertion under a fingerprint already stored\<close>

text \<open>
  C3, as amended. After \<^verbatim>\<open>insert_object(conn, h, obj2)\<close>, \<^verbatim>\<open>retrieve_object(conn, h)\<close>
  holds, under every key of \<open>obj2\<close>, the value of \<open>obj2\<close>, and under every other key what
  it held before: a key stored earlier and absent from \<open>obj2\<close> survives.
\<close>

theorem reinsert_merges:
  assumes tab: "c table_name = Some t"
      and old: "retrieve_object dec c h table_name = Inr old"
      and keys: "distinct (map fst kvs)"
      and codec: "\<forall>(k, v) \<in> set kvs. \<exists>v'. dec (enc v) = Some v' \<and> json_eq v' v"
  shows "\<exists>d. retrieve_object dec (snd (insert_object enc sha1 c h (JObj kvs) table_name)) h table_name
               = Inr d \<and>
             (\<forall>k. case map_of kvs k of
                     Some v \<Rightarrow> (\<exists>v'. map_of d k = Some v' \<and> json_eq v' v)
                   | None \<Rightarrow> map_of d k = map_of old k)"
proof -
  let ?rs = "object_rows enc sha1 h kvs"
  let ?kept = "filter (\<lambda>r. pk r \<notin> pk ` set ?rs) t"
  have state: "snd (insert_object enc sha1 c h (JObj kvs) table_name) =
                 c(table_name \<mapsto> ?kept @ ?rs)"
    using tab keys put_rows_split [of ?rs t]
    by (simp add: insert_object_state put_rows_distinct distinct_pk_object_rows)
  have sel: "select_where_hash (?kept @ ?rs) h =
               filter (\<lambda>r. fst r \<notin> fst ` set kvs) (select_where_hash t h) @
               map (\<lambda>(k, v). (k, Some (enc v))) kvs"
    by (simp add: select_where_hash_append select_where_hash_filter_pk
          select_where_hash_object_rows)
  from old tab have "retrieve_loop dec (select_where_hash t h) [] = Inr old"
    by (simp add: retrieve_object_def)
  from retrieve_loop_filter [OF this, of "fst ` set kvs" "[]"] obtain d1 where
    d1: "retrieve_loop dec (filter (\<lambda>r. fst r \<notin> fst ` set kvs) (select_where_hash t h)) [] = Inr d1"
    and m1: "\<forall>k. map_of d1 k = (if k \<in> fst ` set kvs then None else map_of old k)"
    by auto
  have dec_ok: "\<forall>(k, v) \<in> set kvs. dec (enc v) \<noteq> None"
    using codec by fastforce
  from retrieve_loop_encoded_map [OF keys dec_ok, of d1] obtain d where
    d: "retrieve_loop dec (map (\<lambda>(k, v). (k, Some (enc v))) kvs) d1 = Inr d"
    and m: "map_of d = map_of d1 ++ map_of (map (\<lambda>(k, v). (k, the (dec (enc v)))) kvs)"
    by blast
  have ret: "retrieve_object dec (c(table_name \<mapsto> ?kept @ ?rs)) h table_name = Inr d"
    by (simp add: retrieve_object_def sel retrieve_loop_append d1 d)
  have "case map_of kvs k of
          Some v \<Rightarrow> (\<exists>v'. map_of d k = Some v' \<and> json_eq v' v)
        | None \<Rightarrow> map_of d k = map_of old k" for k
  proof (cases "map_of kvs k")
    case None
    then have "k \<notin> fst ` set kvs" by (simp add: map_of_eq_None_iff)
    with None show ?thesis
      by (simp add: m m1 map_add_def map_of_decoded)
  next
    case (Some v)
    then have "(k, v) \<in> set kvs" by (rule map_of_SomeD)
    with codec obtain v' where "dec (enc v) = Some v'" "json_eq v' v" by fastforce
    with Some show ?thesis
      by (simp add: m map_add_def map_of_decoded)
  qed
  with ret show ?thesis unfolding state by blast
qed

theorem reinsert_merges_witness:
  "\<exists>d. retrieve_object loads_literal
          (snd (insert_object example_enc example_sha1 example_conn ''h1''
                  (JObj [(''a'', JInt 3)]) ''objects'')) ''h1'' ''objects'' = Inr d \<and>
        map_of d ''a'' = Some (JInt 3 :: unit json) \<and>
        map_of d ''b'' = Some (JInt 2)"
proof -
  let ?kvs = "[(''a'', JInt 3)] :: (string \<times> unit json) list"
  let ?t = "[\<lparr>canonical_json_sha1 = ''h1'', property_name = ''a'',
          property_json = Some ''1'', property_json_sha1 = Some ''sha1:1''\<rparr>,
         \<lparr>canonical_json_sha1 = ''h1'', property_name = ''b'',
          property_json = Some ''2'', property_json_sha1 = Some ''sha1:2''\<rparr>]"
  have tab: "example_conn ''objects'' = Some ?t" by (simp add: example_conn_def)
  have old: "retrieve_object loads_literal example_conn ''h1'' ''objects''
               = Inr [(''a'', JInt 1), (''b'', JInt 2 :: unit json)]"
    by (simp add: example_simps)
  have keys: "distinct (map fst ?kvs)" by simp
  have codec: "\<forall>(k, v) \<in> set ?kvs. \<exists>v'. loads_literal (example_enc v) = Some v' \<and> json_eq v' v"
    by (simp add: example_simps)
  from reinsert_merges [OF tab old keys codec, where ?sha1.0 = example_sha1] obtain d where
    d: "retrieve_object loads_literal
          (snd (insert_object example_enc example_sha1 example_conn ''h1''
                  (JObj ?kvs) ''objects'')) ''h1'' ''objects'' = Inr d"
    and m: "\<forall>k. case map_of ?kvs k of
                   Some v \<Rightarrow> (\<exists>v'. map_of d k = Some v' \<and> json_eq v' v)
                 | None \<Rightarrow> map_of d k = map_of [(''a'', JInt 1), (''b'', JInt 2)] k"
    by blast
  from m [rule_format, of "''a''"] have "map_of d ''a'' = Some (JInt 3)" by auto
  moreover from m [rule_format, of "''b''"] have "map_of d ''b'' = Some (JInt 2)" by simp
  ultimately show ?thesis using d by blast
qed

text \<open>
  C3 as stated fails: with \<^verbatim>\<open>{"a": 1, "b": 2}\<close> stored under \<^verbatim>\<open>h1\<close>, inserting
  \<^verbatim>\<open>{"a": 3}\<close> under \<^verbatim>\<open>h1\<close> leaves the key \<^verbatim>\<open>b\<close> in what is retrieved.
\<close>

theorem reinsert_counterexample:
  "retrieve_object loads_literal
     (snd (insert_object example_enc example_sha1 example_conn ''h1''
             (JObj [(''a'', JInt 3)]) ''objects'')) ''h1'' ''objects''
     = Inr [(''b'', JInt 2), (''a'', JInt 3)] \<and>
   \<not> json_eq (JObj [(''b'', JInt 2), (''a'', JInt 3)]) (JObj [(''a'', JInt 3)] :: unit json)"
  by (simp add: example_simps)

subsection \<open>Retrieval of a fingerprint never stored\<close>

text \<open>
  C4, as amended. In a table that exists, \<^verbatim>\<open>retrieve_object\<close> of a fingerprint that no
  row carries is not an error: it returns the empty dict.
\<close>

theorem retrieve_unknown_returns_empty:
  assumes "c table_name = Some t"
      and "h \<notin> canonical_json_sha1 ` set t"
  shows "retrieve_object dec c h table_name = Inr []"
proof -
  have "filter (\<lambda>r. canonical_json_sha1 r = h) t = []"
    using assms(2) by (auto simp: filter_empty_conv)
  then show ?thesis
    using assms(1) by (simp add: retrieve_object_def select_where_hash_def)
qed

theorem retrieve_unknown_returns_empty_witness:
  "retrieve_object loads_literal example_conn ''h9'' ''objects''
     = Inr ([] :: (string \<times> unit json) list)"
proof -
  let ?t = "[\<lparr>canonical_json_sha1 = ''h1'', property_name = ''a'',
          property_json = Some ''1'', property_json_sha1 = Some ''sha1:1''\<rparr>,
         \<lparr>canonical_json_sha1 = ''h1'', property_name = ''b'',
          property_json = Some ''2'', property_json_sha1 = Some ''sha1:2''\<rparr>]"
  have tab: "example_conn ''objects'' = Some ?t" by (simp add: example_conn_def)
  have "''h9'' \<notin> canonical_json_sha1 ` set ?t" by simp
  with tab show ?thesis by (rule retrieve_unknown_returns_empty)
qed

text \<open>
  C4 as stated fails: on a table just created, \<^verbatim>\<open>retrieve_object\<close> of a fingerprint
  never stored returns \<^verbatim>\<open>{}\<close> instead of failing.
\<close>

theorem retrieve_unknown_counterexample:
  "retrieve_object loads_literal (create_object_table Map.empty ''objects'') ''h1'' ''objects''
     = Inr ([] :: (string \<times> unit json) list)"
  by (simp add: retrieve_object_def create_object_table_def select_where_hash_def)

subsection \<open>Insertion repeated\<close>

text \<open>
  C5. Inserting the same object a second time with \<^verbatim>\<open>insert_object_auto_hash\<close> returns
  what the first insert returned (the same fingerprint) and leaves the connection as the
  first insert left it: the same rows in every table, so no duplicate and no new row.
\<close>

theorem insert_idempotent:
  "insert_object_auto_hash enc sha1
     (snd (insert_object_auto_hash enc sha1 c obj table_name)) obj table_name =
   insert_object_auto_hash enc sha1 c obj table_name"
proof (cases "items obj")
  case (Inl e)
  then show ?thesis by (simp add: insert_object_auto_hash_def insert_object_def)
next
  case (Inr kvs)
  then have obj: "obj = JObj kvs" by (cases obj) simp_all
  show ?thesis
  proof (cases "c table_name")
    case None
    then show ?thesis
      by (simp add: obj insert_object_auto_hash_def insert_object_def insert_object_loop_None)
  next
    case (Some t)
    let ?rs = "object_rows enc sha1 (sha1 (enc (JObj kvs))) kvs"
    have first: "insert_object_auto_hash enc sha1 c (JObj kvs) table_name =
                   (Inr (sha1 (enc (JObj kvs))), c(table_name \<mapsto> put_rows ?rs t))"
      using Some by (rule insert_object_auto_hash_Some)
    have "insert_object_auto_hash enc sha1 (c(table_name \<mapsto> put_rows ?rs t)) (JObj kvs) table_name =
            (Inr (sha1 (enc (JObj kvs))),
             (c(table_name \<mapsto> put_rows ?rs t))(table_name \<mapsto> put_rows ?rs (put_rows ?rs t)))"
      by (rule insert_object_auto_hash_Some) simp
    then show ?thesis
      by (simp add: obj first put_rows_idem del: fun_upd_apply)
  qed
qed

theorem insert_idempotent_witness:
  "insert_object_auto_hash example_enc example_sha1
     (snd (insert_object_auto_hash example_enc example_sha1 example_conn
             (JObj [(''a'', JInt 1)]) ''objects''))
     (JObj [(''a'', JInt 1)]) ''objects''
   = insert_object_auto_hash example_enc example_sha1 example_conn
       (JObj [(''a'', JInt 1)]) ''objects'' \<and>
   fst (insert_object_auto_hash example_enc example_sha1 example_conn
          (JObj [(''a'', JInt 1)]) ''objects'') = Inr ''sha1:{\"a\":1}''"
proof -
  have "fst (insert_object_auto_hash example_enc example_sha1 example_conn
          (JObj [(''a'', JInt 1)]) ''objects'') = Inr ''sha1:{\"a\":1}''"
    by (simp add: example_simps)
  with insert_idempotent [of example_enc example_sha1 example_conn "JObj [(''a'', JInt 1)]" "''objects''"]
  show ?thesis by (intro conjI)
qed

subsection \<open>The digest column\<close>

lemma digest_ok_object_rows: "r \<in> set (object_rows enc sha1 h kvs) \<Longrightarrow> digest_ok sha1 r"
  by (auto simp: object_rows_def digest_ok_def)

text \<open>
  \<^verbatim>\<open>insert_object\<close>, and so \<^verbatim>\<open>insert_object_auto_hash\<close>, keeps the row invariant: if every row
  of the table has its digest before the call, every row has it after.
\<close>

lemma insert_object_digest_ok:
  assumes "c table_name = Some t" and "\<forall>r \<in> set t. digest_ok sha1 r"
      and "snd (insert_object enc sha1 c h obj table_name) table_name = Some t'"
  shows "\<forall>r \<in> set t'. digest_ok sha1 r"
proof (cases "items obj")
  case (Inl e)
  with assms show ?thesis by (simp add: insert_object_state)
next
  case (Inr kvs)
  with assms have "t' = put_rows (object_rows enc sha1 h kvs) t"
    by (simp add: insert_object_state)
  with set_put_rows [of "object_rows enc sha1 h kvs" t] assms(2) show ?thesis
    by (auto dest: digest_ok_object_rows)
qed

text \<open>
  C6 fails on the code. Every row \<^verbatim>\<open>insert_objects_auto_hash\<close> writes has
  \<^verbatim>\<open>property_json\<close> equal to the canonical text of the member and \<^verbatim>\<open>property_json_sha1\<close>
  \<^verbatim>\<open>NULL\<close>, not the digest of that text.
\<close>

theorem batch_insert_rows_without_digest:
  "map_option (map (\<lambda>r. (property_name r, property_json r, property_json_sha1 r)))
     (snd (insert_objects_auto_hash enc sha1 (create_object_table Map.empty ''objects'')
             [JObj [(''a'', JInt 1)], JObj [(''n'', JNull)]] ''objects'') ''objects'')
   = Some [(''a'', Some (enc (JInt 1)), None), (''n'', Some (enc JNull), None)]"
  by (simp add: insert_objects_auto_hash_def execute_insert_def insert_or_replace_def
        create_object_table_def same_key_def Let_def)

subsection \<open>Retrieval of all objects\<close>

lemma retrieve_all_objects_flush:
  "c tn = Some t \<Longrightarrow>
   retrieve_all_objects dec c tn =
     flush (retrieve_all_loop dec (sort_key canonical_json_sha1 t) [] None [])"
  by (simp add: retrieve_all_objects_def flush_def split: sum.splits prod.splits)

lemma sorted_list_of_set_insert_least:
  fixes h :: "'a::linorder"
  assumes "finite S" and "\<forall>x \<in> S. h \<le> x"
  shows "sorted_list_of_set (insert h S) = h # sorted_list_of_set (S - {h})"
proof -
  have "sorted_list_of_set (insert h S) = insort h (sorted_list_of_set (S - {h}))"
    using assms(1) by simp
  also have "\<dots> = h # sorted_list_of_set (S - {h})"
    using assms by (intro insort_is_Cons) auto
  finally show ?thesis .
qed

lemma retrieve_all_loop_group:
  assumes "sorted (map canonical_json_sha1 rows)"
      and "\<forall>r \<in> set rows. h0 \<le> canonical_json_sha1 r"
      and "\<forall>r \<in> set rows. decodable dec r"
      and "retrieve_loop dec (fetched (filter (\<lambda>r. canonical_json_sha1 r = h0) rows)) obj = Inr d0"
  shows "\<exists>ds. flush (retrieve_all_loop dec rows results (Some h0) obj) = Inr (results @ d0 # ds) \<and>
              list_all2
                (\<lambda>d h. retrieve_loop dec (fetched (filter (\<lambda>r. canonical_json_sha1 r = h) rows)) []
                         = Inr d)
                ds (sorted_list_of_set (canonical_json_sha1 ` set rows - {h0}))"
  using assms
proof (induction rows arbitrary: results h0 obj d0)
  case Nil
  then show ?case by (simp add: flush_def fetched_def)
next
  case (Cons r rows)
  let ?f = "canonical_json_sha1"
  let ?P = "\<lambda>rs d h. retrieve_loop dec (fetched (filter (\<lambda>r. ?f r = h) rs)) [] = Inr d"
  obtain v where v: "loads_or_none dec (property_json r) = Inr v"
    using Cons.prems(3) loads_or_none_decodable [of dec r] by auto
  have sorted: "sorted (map ?f rows)" and ge: "\<forall>x \<in> set rows. ?f r \<le> ?f x"
    using Cons.prems(1) by auto
  have dec_rows: "\<forall>r \<in> set rows. decodable dec r" using Cons.prems(3) by simp
  show ?case
  proof (cases "?f r = h0")
    case True
    have step: "retrieve_all_loop dec (r # rows) results (Some h0) obj =
                retrieve_all_loop dec rows results (Some h0) (dict_set (property_name r) v obj)"
      by (simp add: True v Let_def)
    have d0: "retrieve_loop dec (fetched (filter (\<lambda>r. ?f r = h0) rows))
                (dict_set (property_name r) v obj) = Inr d0"
      using Cons.prems(4) by (simp add: True v fetched_def)
    have ge0: "\<forall>x \<in> set rows. h0 \<le> ?f x" using Cons.prems(2) by simp
    from Cons.IH [OF sorted ge0 dec_rows d0, of results] obtain ds where
      fl: "flush (retrieve_all_loop dec rows results (Some h0)
                    (dict_set (property_name r) v obj)) = Inr (results @ d0 # ds)"
      and all: "list_all2 (?P rows) ds (sorted_list_of_set (?f ` set rows - {h0}))"
      by blast
    have same: "?f ` set (r # rows) - {h0} = ?f ` set rows - {h0}"
      using True by auto
    have "list_all2 (?P (r # rows)) ds (sorted_list_of_set (?f ` set rows - {h0}))"
      using all by (rule list.rel_mono_strong) (auto simp: True)
    with fl show ?thesis unfolding step same by blast
  next
    case False
    let ?h = "?f r"
    have lt: "h0 < ?h" using Cons.prems(2) False by (simp add: order.strict_iff_order)
    have none0: "filter (\<lambda>x. ?f x = h0) (r # rows) = []"
      using lt ge False by (auto simp: filter_empty_conv)
    have d0: "d0 = obj" using Cons.prems(4) unfolding none0 by (simp add: fetched_def)
    have step: "retrieve_all_loop dec (r # rows) results (Some h0) obj =
                retrieve_all_loop dec rows (results @ [obj]) (Some ?h)
                  (dict_set (property_name r) v [])"
      using False by (simp add: v Let_def)
    obtain d1 where d1: "retrieve_loop dec (fetched (filter (\<lambda>x. ?f x = ?h) rows))
                           (dict_set (property_name r) v []) = Inr d1"
      using retrieve_loop_decodable [of "filter (\<lambda>x. ?f x = ?h) rows" dec] dec_rows by auto
    from Cons.IH [OF sorted ge dec_rows d1, of "results @ [obj]"] obtain ds where
      fl: "flush (retrieve_all_loop dec rows (results @ [obj]) (Some ?h)
                    (dict_set (property_name r) v [])) = Inr ((results @ [obj]) @ d1 # ds)"
      and all: "list_all2 (?P rows) ds (sorted_list_of_set (?f ` set rows - {?h}))"
      by blast
    have set_eq: "?f ` set (r # rows) - {h0} = insert ?h (?f ` set rows)"
      using lt ge by force
    have hs: "sorted_list_of_set (?f ` set (r # rows) - {h0}) =
              ?h # sorted_list_of_set (?f ` set rows - {?h})"
      unfolding set_eq using ge by (intro sorted_list_of_set_insert_least) auto
    have head: "?P (r # rows) d1 ?h"
      using d1 by (simp add: v fetched_def)
    have tail: "list_all2 (?P (r # rows)) ds (sorted_list_of_set (?f ` set rows - {?h}))"
      using all by (rule list.rel_mono_strong) auto
    have "flush (retrieve_all_loop dec (r # rows) results (Some h0) obj) =
            Inr (results @ d0 # d1 # ds)"
      unfolding step fl d0 by simp
    moreover have "list_all2 (?P (r # rows)) (d1 # ds)
                     (sorted_list_of_set (?f ` set (r # rows) - {h0}))"
      unfolding hs using head tail by simp
    ultimately show ?thesis by blast
  qed
qed

lemma retrieve_all_loop_start:
  assumes "sorted (map canonical_json_sha1 rows)"
      and "\<forall>r \<in> set rows. decodable dec r"
  shows "\<exists>ds. flush (retrieve_all_loop dec rows [] None []) = Inr ds \<and>
              list_all2
                (\<lambda>d h. retrieve_loop dec (fetched (filter (\<lambda>r. canonical_json_sha1 r = h) rows)) []
                         = Inr d)
                ds (sorted_list_of_set (canonical_json_sha1 ` set rows))"
proof (cases rows)
  case Nil
  then show ?thesis by (simp add: flush_def)
next
  case (Cons r rest)
  let ?f = "canonical_json_sha1"
  let ?P = "\<lambda>d h. retrieve_loop dec (fetched (filter (\<lambda>r. ?f r = h) rows)) [] = Inr d"
  obtain v where v: "loads_or_none dec (property_json r) = Inr v"
    using assms(2) loads_or_none_decodable [of dec r] by (auto simp: Cons)
  have ge: "\<forall>x \<in> set rows. ?f r \<le> ?f x" using assms(1) by (auto simp: Cons)
  obtain d0 where d0: "retrieve_loop dec (fetched (filter (\<lambda>x. ?f x = ?f r) rows)) [] = Inr d0"
    using retrieve_loop_decodable [of "filter (\<lambda>x. ?f x = ?f r) rows" dec] assms(2) by auto
  have step: "retrieve_all_loop dec rows [] None [] =
              retrieve_all_loop dec rest [] (Some (?f r)) (dict_set (property_name r) v [])"
    by (simp add: Cons v Let_def)
  have sorted: "sorted (map ?f rest)" and ge': "\<forall>x \<in> set rest. ?f r \<le> ?f x"
    and dec_rest: "\<forall>x \<in> set rest. decodable dec x"
    using assms by (auto simp: Cons)
  have d0': "retrieve_loop dec (fetched (filter (\<lambda>x. ?f x = ?f r) rest))
               (dict_set (property_name r) v []) = Inr d0"
    using d0 by (simp add: Cons v fetched_def)
  from retrieve_all_loop_group [OF sorted ge' dec_rest d0', of "[]"] obtain ds where
    fl: "flush (retrieve_all_loop dec rest [] (Some (?f r)) (dict_set (property_name r) v []))
           = Inr ([] @ d0 # ds)"
    and all: "list_all2
                (\<lambda>d h. retrieve_loop dec (fetched (filter (\<lambda>r. ?f r = h) rest)) [] = Inr d)
                ds (sorted_list_of_set (?f ` set rest - {?f r}))"
    by blast
  have hs: "sorted_list_of_set (?f ` set rows) = ?f r # sorted_list_of_set (?f ` set rest - {?f r})"
    using ge' by (simp only: Cons list.set image_insert)
                 (intro sorted_list_of_set_insert_least, auto)
  have tail: "list_all2 ?P ds (sorted_list_of_set (?f ` set rest - {?f r}))"
    using all by (rule list.rel_mono_strong) (auto simp: Cons)
  have "list_all2 ?P (d0 # ds) (sorted_list_of_set (?f ` set rows))"
    unfolding hs using d0 tail by simp
  moreover have "flush (retrieve_all_loop dec rows [] None []) = Inr (d0 # ds)"
    unfolding step fl by simp
  ultimately show ?thesis by blast
qed

text \<open>
  C7. On a table whose rows all decode, \<^verbatim>\<open>retrieve_all_objects\<close> returns one object for
  each distinct fingerprint of the table, in ascending order of the fingerprints, and
  the object of a fingerprint is the one \<^verbatim>\<open>retrieve_object\<close> returns for it. The loop
  is the single pass over the rows sorted by fingerprint.
\<close>

theorem retrieve_all_objects_grouped:
  assumes tab: "c table_name = Some t"
      and dec_ok: "\<forall>r \<in> set t. decodable dec r"
  shows "\<exists>ds. retrieve_all_objects dec c table_name = Inr ds \<and>
              list_all2 (\<lambda>d h. retrieve_object dec c h table_name = Inr d)
                ds (sorted_list_of_set (canonical_json_sha1 ` set t))"
proof -
  let ?rows = "sort_key canonical_json_sha1 t"
  have "sorted (map canonical_json_sha1 ?rows)" by simp
  moreover have "\<forall>r \<in> set ?rows. decodable dec r" using dec_ok by simp
  ultimately obtain ds where
    fl: "flush (retrieve_all_loop dec ?rows [] None []) = Inr ds"
    and all: "list_all2
                (\<lambda>d h. retrieve_loop dec
                          (fetched (filter (\<lambda>r. canonical_json_sha1 r = h) ?rows)) [] = Inr d)
                ds (sorted_list_of_set (canonical_json_sha1 ` set ?rows))"
    using retrieve_all_loop_start [of ?rows dec] by blast
  have "list_all2 (\<lambda>d h. retrieve_object dec c h table_name = Inr d)
          ds (sorted_list_of_set (canonical_json_sha1 ` set t))"
    using all tab
    by (simp add: retrieve_object_def select_where_hash_fetched sort_key_stable)
  with fl tab show ?thesis
    by (simp add: retrieve_all_objects_flush)
qed

theorem retrieve_all_objects_grouped_witness:
  "(\<exists>ds :: (string \<times> unit json) list list.
       retrieve_all_objects loads_literal [''objects'' \<mapsto> example_table] ''objects'' = Inr ds \<and>
       list_all2
         (\<lambda>d h. retrieve_object loads_literal [''objects'' \<mapsto> example_table] h ''objects'' = Inr d)
         ds (sorted_list_of_set (canonical_json_sha1 ` set example_table))) \<and>
   retrieve_all_objects loads_literal [''objects'' \<mapsto> example_table] ''objects''
     = Inr [[(''a'', JInt 1), (''b'', JInt 2)], [(''x'', JInt 5), (''y'', JNull :: unit json)]]"
proof -
  have tab: "[''objects'' \<mapsto> example_table] ''objects'' = Some example_table" by simp
  have ok: "\<forall>r \<in> set example_table. decodable (loads_literal :: string \<Rightarrow> unit json option) r"
    by (simp add: example_table_def decodable_def loads_literal_def parse_digits_def
          digit_value_def)
  have sorted: "sort_key canonical_json_sha1 example_table =
     [\<lparr>canonical_json_sha1 = ''h1'', property_name = ''a'',
       property_json = Some ''1'', property_json_sha1 = Some ''sha1:1''\<rparr>,
      \<lparr>canonical_json_sha1 = ''h1'', property_name = ''b'',
       property_json = Some ''2'', property_json_sha1 = Some ''sha1:2''\<rparr>,
      \<lparr>canonical_json_sha1 = ''h2'', property_name = ''x'',
       property_json = Some ''5'', property_json_sha1 = None\<rparr>,
      \<lparr>canonical_json_sha1 = ''h2'', property_name = ''y'',
       property_json = None, property_json_sha1 = None\<rparr>]"
    by (simp add: example_table_def example_order)
  have "retrieve_all_objects loads_literal [''objects'' \<mapsto> example_table] ''objects''
     = Inr [[(''a'', JInt 1), (''b'', JInt 2)], [(''x'', JInt 5), (''y'', JNull :: unit json)]]"
    by (simp add: retrieve_all_objects_def sorted Let_def loads_literal_def parse_digits_def
          digit_value_def)
  with retrieve_all_objects_grouped
         [of "[''objects'' \<mapsto> example_table]" "''objects''" example_table loads_literal,
          OF tab ok]
  show ?thesis by (intro conjI)
qed

subsection \<open>The canonical encoding\<close>

lemma sort_key_fst_unique:
  fixes xs ys :: "('k::linorder \<times> 'v) list"
  assumes "distinct (map fst xs)" and "distinct (map fst ys)" and "set xs = set ys"
  shows "sort_key fst xs = sort_key fst ys"
proof (rule map_sorted_distinct_set_unique [where f = fst])
  have inj: "inj_on fst (set xs)" using assms(1) by (simp add: distinct_map)
  show "inj_on fst (set (sort_key fst xs) \<union> set (sort_key fst ys))"
    using inj assms(3) by simp
  show "distinct (map fst (sort_key fst xs))"
    using assms(1) by (simp add: distinct_map)
  show "distinct (map fst (sort_key fst ys))"
    using assms(2) by (simp add: distinct_map)
  show "set (sort_key fst xs) = set (sort_key fst ys)"
    using assms(3) by simp
qed simp_all

lemma json_eq_JArr: "json_eq (JArr xs) b \<longleftrightarrow> (\<exists>ys. b = JArr ys \<and> list_all2 json_eq xs ys)"
  by (cases b) auto

lemma json_eq_JObj:
  "json_eq (JObj xs) b \<longleftrightarrow>
     (\<exists>ys. b = JObj ys \<and> set (map fst xs) = set (map fst ys) \<and>
           (\<forall>(k, v) \<in> set xs. \<forall>(k', v') \<in> set ys. k = k' \<longrightarrow> json_eq v v'))"
  by (cases b) (auto simp: list_all_iff)

lemma json_eq_scalar:
  "json_eq JNull b \<longleftrightarrow> b = JNull"
  "json_eq (JBool x) b \<longleftrightarrow> b = JBool x"
  "json_eq (JInt i) b \<longleftrightarrow> b = JInt i"
  "json_eq (JFloat f) b \<longleftrightarrow> b = JFloat f"
  "json_eq (JStr s) b \<longleftrightarrow> b = JStr s"
  by auto

lemma canonical_json_json_eq:
  "wf_json a \<Longrightarrow> wf_json b \<Longrightarrow> json_eq a b \<Longrightarrow> canonical_json fl a = canonical_json fl b"
proof (induction a arbitrary: b)
  case (JArr xs)
  from JArr.prems(3) obtain ys where b: "b = JArr ys" and all: "list_all2 json_eq xs ys"
    by (auto simp: json_eq_JArr)
  have wfx: "\<forall>x \<in> set xs. wf_json x" and wfy: "\<forall>y \<in> set ys. wf_json y"
    using JArr.prems(1,2) by (auto simp: b list_all_iff)
  have "map (canonical_json fl) xs = map (canonical_json fl) ys"
    using all wfx wfy JArr.IH
  proof (induction xs ys rule: list_all2_induct)
    case Nil
    then show ?case by simp
  next
    case (Cons x xs y ys)
    then show ?case by auto
  qed
  then show ?case by (simp add: b)
next
  case (JObj xs)
  from JObj.prems(3) obtain ys where b: "b = JObj ys"
    and keys: "set (map fst xs) = set (map fst ys)"
    and vals: "\<forall>(k, v) \<in> set xs. \<forall>(k', v') \<in> set ys. k = k' \<longrightarrow> json_eq v v'"
    by (auto simp: json_eq_JObj)
  let ?E = "map (\<lambda>(k, v). (k, canonical_json fl v))"
  have dx: "distinct (map fst xs)" and dy: "distinct (map fst ys)"
    and wfx: "\<forall>(k, v) \<in> set xs. wf_json v" and wfy: "\<forall>(k, v) \<in> set ys. wf_json v"
    using JObj.prems(1,2) by (auto simp: b list_all_iff)
  have enc_eq: "canonical_json fl v = canonical_json fl v'"
    if "(k, v) \<in> set xs" "(k, v') \<in> set ys" for k v v'
  proof -
    have "json_eq v v'" using vals that by fastforce
    moreover have "wf_json v" "wf_json v'" using wfx wfy that by auto
    moreover have "v \<in> Basic_BNFs.snds (k, v)" by simp
    ultimately show ?thesis using JObj.IH [OF that(1)] by blast
  qed
  have "set (?E xs) = set (?E ys)"
  proof (intro set_eqI iffI)
    fix p assume "p \<in> set (?E xs)"
    then obtain k v where kv: "(k, v) \<in> set xs" and p: "p = (k, canonical_json fl v)" by auto
    from kv keys obtain v' where kv': "(k, v') \<in> set ys" by force
    with enc_eq [OF kv kv'] p show "p \<in> set (?E ys)" by force
  next
    fix p assume "p \<in> set (?E ys)"
    then obtain k v' where kv': "(k, v') \<in> set ys" and p: "p = (k, canonical_json fl v')" by auto
    from kv' keys obtain v where kv: "(k, v) \<in> set xs" by force
    with enc_eq [OF kv kv'] p show "p \<in> set (?E xs)" by force
  qed
  moreover have "map fst (?E zs) = map fst zs" for zs :: "(string \<times> 'a json) list"
    by (induction zs) auto
  then have "distinct (map fst (?E xs))" "distinct (map fst (?E ys))"
    using dx dy by (simp_all del: map_map)
  ultimately have "sort_key fst (?E xs) = sort_key fst (?E ys)"
    by (intro sort_key_fst_unique)
  then show ?case by (simp add: b)
qed (auto simp: json_eq_scalar)

lemma items_json_eq:
  "json_eq a b \<Longrightarrow> (\<exists>e. items a = Inl e \<and> items b = Inl e) \<or> (\<exists>xs ys. items a = Inr xs \<and> items b = Inr ys)"
  by (cases a) (auto simp: json_eq_JArr json_eq_JObj)

text \<open>
  C8. The canonical encoding is deterministic: two well-formed values that are
  type-faithfully equal, in particular two objects with the same members inserted in
  different orders, have the same canonical text, so \<^verbatim>\<open>insert_object_auto_hash\<close> returns
  the same fingerprint for both (on connections where the table exists).
\<close>

theorem canonical_json_deterministic:
  assumes "wf_json a" and "wf_json b" and "json_eq a b"
      and "c table_name = Some t" and "c' table_name = Some t'"
  shows "canonical_json fl a = canonical_json fl b \<and>
         fst (insert_object_auto_hash (canonical_json fl) sha1 c a table_name) =
         fst (insert_object_auto_hash (canonical_json fl) sha1 c' b table_name)"
proof -
  have enc: "canonical_json fl a = canonical_json fl b"
    using assms(1-3) by (rule canonical_json_json_eq)
  have fa: "fst (insert_object_auto_hash (canonical_json fl) sha1 c a table_name) =
     (case items a of Inl e \<Rightarrow> Inl e | Inr kvs \<Rightarrow> Inr (sha1 (canonical_json fl a)))"
    using assms(4) by (rule fst_insert_object_auto_hash)
  have fb: "fst (insert_object_auto_hash (canonical_json fl) sha1 c' b table_name) =
     (case items b of Inl e \<Rightarrow> Inl e | Inr kvs \<Rightarrow> Inr (sha1 (canonical_json fl b)))"
    using assms(5) by (rule fst_insert_object_auto_hash)
  from items_json_eq [OF assms(3)] enc show ?thesis
    unfolding fa fb by auto
qed

theorem canonical_json_deterministic_witness:
  "example_enc (JObj [(''b'', JInt 1), (''a'', JInt 2)]) = ''{\"a\":2,\"b\":1}'' \<and>
   example_enc (JObj [(''a'', JInt 2), (''b'', JInt 1)]) = ''{\"a\":2,\"b\":1}'' \<and>
   example_enc (JObj [(''b'', JInt 1), (''a'', JInt 2)]) =
   example_enc (JObj [(''a'', JInt 2), (''b'', JInt 1)]) \<and>
   fst (insert_object_auto_hash example_enc example_sha1 example_conn
          (JObj [(''b'', JInt 1), (''a'', JInt 2)]) ''objects'') =
   fst (insert_object_auto_hash example_enc example_sha1 [''objects'' \<mapsto> example_table]
          (JObj [(''a'', JInt 2), (''b'', JInt 1)]) ''objects'')"
proof -
  let ?a = "JObj [(''b'', JInt 1), (''a'', JInt 2)] :: unit json"
  let ?b = "JObj [(''a'', JInt 2), (''b'', JInt 1)] :: unit json"
  have wa: "wf_json ?a" and wb: "wf_json ?b" by simp_all
  have eq: "json_eq ?a ?b" by auto
  have c1: "example_conn ''objects'' = Some (the (example_conn ''objects''))"
    by (simp add: example_conn_def)
  have c2: "[''objects'' \<mapsto> example_table] ''objects'' = Some example_table" by simp
  have ea: "example_enc ?a = ''{\"a\":2,\"b\":1}''"
    by (simp add: example_enc_def render_int_def hex_digit_def render_member_def quote_def
          escape_char_def less_eq_char_def less_char_def)
  have eb: "example_enc ?b = ''{\"a\":2,\"b\":1}''"
    by (simp add: example_enc_def render_int_def hex_digit_def render_member_def quote_def
          escape_char_def less_eq_char_def less_char_def)
  note det = canonical_json_deterministic
         [of ?a ?b example_conn "''objects''" _ "[''objects'' \<mapsto> example_table]" example_table
             "\<lambda>x. ''0.5''" example_sha1, OF wa wb eq c1 c2, folded example_enc_def]
  show ?thesis
    by (intro conjI ea eb det [THEN conjunct1] det [THEN conjunct2])
qed

subsection \<open>Values that are not objects\<close>

text \<open>
  C9. A scalar top-level value is rejected and nothing is stored: \<^verbatim>\<open>obj.items()\<close> raises
  (Python's \<^verbatim>\<open>AttributeError\<close> is the rejection, the code has no error class of its own)
  before any statement is executed, in \<^verbatim>\<open>insert_object\<close>, in
  \<^verbatim>\<open>insert_object_auto_hash\<close> and in \<^verbatim>\<open>insert_objects_auto_hash\<close> of that one value.
\<close>

theorem scalar_rejected:
  assumes "is_scalar v"
  shows "insert_object enc sha1 c h v table_name = (Inl AttributeError, c) \<and>
         insert_object_auto_hash enc sha1 c v table_name = (Inl AttributeError, c) \<and>
         insert_objects_auto_hash enc sha1 c [v] table_name = (Inl AttributeError, c)"
  using assms
  by (simp add: insert_object_def insert_object_auto_hash_def insert_objects_auto_hash_def
        items_scalar)

theorem scalar_rejected_witness:
  "insert_object example_enc example_sha1 example_conn ''h3'' (JInt 42) ''objects''
     = (Inl AttributeError, example_conn) \<and>
   insert_object_auto_hash example_enc example_sha1 example_conn (JInt 42) ''objects''
     = (Inl AttributeError, example_conn) \<and>
   insert_objects_auto_hash example_enc example_sha1 example_conn [JInt 42] ''objects''
     = (Inl AttributeError, example_conn)"
proof -
  have "is_scalar (JInt 42 :: unit json)" by simp
  then show ?thesis by (rule scalar_rejected)
qed

subsection \<open>Objects under other fingerprints\<close>

text \<open>
  C10. \<^verbatim>\<open>insert_object\<close> under the fingerprint \<open>h\<close> leaves what is stored under every
  other fingerprint \<open>h'\<close> as it is: \<^verbatim>\<open>retrieve_object\<close> of \<open>h'\<close> gives the same result
  before and after, whatever is inserted, in whatever table, and also when the insert
  raises.
\<close>

theorem insert_object_frame:
  assumes "h' \<noteq> h"
  shows "retrieve_object dec (snd (insert_object enc sha1 c h obj table_name)) h' table_name' =
         retrieve_object dec c h' table_name'"
proof (cases "items obj")
  case (Inl e)
  then show ?thesis by (simp add: insert_object_state)
next
  case (Inr kvs)
  show ?thesis
  proof (cases "c table_name")
    case None
    with Inr show ?thesis by (simp add: insert_object_state)
  next
    case (Some t)
    have "select_where_hash (put_rows (object_rows enc sha1 h kvs) t) h' = select_where_hash t h'"
      unfolding select_where_hash_def
      using assms by (subst filter_hash_put_rows) (auto dest: hash_object_rows)
    with Inr Some show ?thesis
      by (simp add: insert_object_state retrieve_object_def)
  qed
qed

theorem insert_object_frame_witness:
  "retrieve_object loads_literal
     (snd (insert_object example_enc example_sha1 example_conn ''h2''
             (JObj [(''a'', JInt 3)]) ''objects'')) ''h1'' ''objects''
     = retrieve_object loads_literal example_conn ''h1'' ''objects'' \<and>
   retrieve_object loads_literal example_conn ''h1'' ''objects''
     = Inr [(''a'', JInt 1), (''b'', JInt 2 :: unit json)]"
proof -
  have "''h1'' \<noteq> ''h2''" by simp
  from insert_object_frame [OF this]
  have "retrieve_object loads_literal
     (snd (insert_object example_enc example_sha1 example_conn ''h2''
             (JObj [(''a'', JInt 3)]) ''objects'')) ''h1'' ''objects''
     = retrieve_object loads_literal example_conn ''h1'' ''objects''" .
  moreover have "retrieve_object loads_literal example_conn ''h1'' ''objects''
     = Inr [(''a'', JInt 1), (''b'', JInt 2 :: unit json)]"
    by (simp add: example_simps)
  ultimately show ?thesis by (intro conjI)
qed

end
